theory Spec2Isabelle
  imports Complex_Main
begin

section \<open>Data model of \<open>src/App.tsx\<close>\<close>

text \<open>
  The component \<open>App\<close> keeps its state in React hooks. The embedding makes that state a
  record and every event handler and timer callback a function from state to state. All
  \<open>set...\<close> calls of one handler are batched by React, so one call of a handler is one
  transition, and the states between transitions are what a render can observe.

  Numbers are JavaScript doubles in the source and exact rationals here. A double operation
  returns the exact result whenever that result is itself a double, so the two agree as long
  as every intermediate result is one. That is the case when the number of stages is a power
  of two, as with the four stages the component declares (\<open>quotients_exact\<close> below); for
  other stage counts the quotients by \<open>steps.length\<close> are rounded in the source, and the
  rational is the number the double approximates. Statements on the exact value of
  \<open>overallProgress\<close> are therefore made for stage counts that are powers of two only.
\<close>

text \<open>\<open>interface VideoFile\<close>; the \<open>File\<close> blob itself is opaque and left out.\<close>

record VideoFile =
  url :: string
  name :: string
  size :: string

text \<open>\<open>interface ProcessingStep\<close>.\<close>

record ProcessingStep =
  name :: string
  description :: string
  progress :: rat
  completed :: bool

datatype wizard = upload | processing | preview | download

text \<open>
  A \<open>video\<close> element as far as the component drives it: \<open>play()\<close> and \<open>pause()\<close> are
  DOM methods, modelled by what they do to the element's \<open>paused\<close> attribute (the promise
  \<open>play()\<close> returns is dropped by the source).
\<close>

record HTMLVideoElement =
  src :: string
  paused :: bool

definition play :: "HTMLVideoElement \<Rightarrow> HTMLVideoElement" where
  "play v = v\<lparr>paused := False\<rparr>"

definition pause :: "HTMLVideoElement \<Rightarrow> HTMLVideoElement" where
  "pause v = v\<lparr>paused := True\<rparr>"

text \<open>
  The step objects live on the JavaScript heap: \<open>[...processingSteps]\<close> copies the array
  of references, not the objects, and \<open>step.progress = ...\<close> writes through a reference.
  A reference is an address \<open>nat\<close>, the heap a function from addresses to objects, and
  \<open>next_ref\<close> the first address no object has been allocated at.

  A pending timer holds the variables its callback closes over:
  \<^item> \<open>StepInterval steps currentStepIndex step stepProgress\<close> is the \<open>setInterval(..., 80)\<close> of
    \<open>processStep\<close>;
  \<^item> \<open>StepTimeout steps currentStepIndex\<close> is the \<open>setTimeout(processStep, 500)\<close>.
  One call of \<open>startProcessing\<close> has at most one of the two pending at a time, so its
  variable \<open>currentStepIndex\<close> can be kept in the timer.
\<close>

datatype timer =
  StepInterval "nat list" nat nat rat
  | StepTimeout "nat list" nat

record app =
  currentStep :: wizard
  uploadedVideo :: "VideoFile option"
  isDragging :: bool
  isPlaying :: bool
  processingSteps :: "nat list"
  overallProgress :: rat
  isProcessing :: bool
  fileInputRef :: "string option"
  leftVideoRef :: "HTMLVideoElement option"
  rightVideoRef :: "HTMLVideoElement option"
  heap :: "nat \<Rightarrow> ProcessingStep"
  next_ref :: nat
  timers :: "timer list"

text \<open>What a render shows of the stages: the objects the state's array refers to.\<close>

definition snapshot :: "app \<Rightarrow> ProcessingStep list" where
  "snapshot s = map (heap s) (processingSteps s)"

section \<open>Synchronized playback\<close>

text \<open>\<open>togglePlayback\<close>, lines 44-59. A ref's \<open>current\<close> is \<open>null\<close> (\<open>None\<close>) while its element is
  not mounted.\<close>

definition togglePlayback :: "app \<Rightarrow> app" where
  "togglePlayback s =
     (case leftVideoRef s of
        None \<Rightarrow> s
      | Some leftVideo \<Rightarrow>
          (case rightVideoRef s of
             None \<Rightarrow> s
           | Some rightVideo \<Rightarrow>
               if isPlaying s then
                 s\<lparr>leftVideoRef := Some (pause leftVideo),
                   rightVideoRef := Some (pause rightVideo),
                   isPlaying := False\<rparr>
               else
                 s\<lparr>leftVideoRef := Some (play leftVideo),
                   rightVideoRef := Some (play rightVideo),
                   isPlaying := True\<rparr>))"

text \<open>\<open>handleVideoEnd\<close>, lines 61-63.\<close>

definition handleVideoEnd :: "app \<Rightarrow> app" where
  "handleVideoEnd s = s\<lparr>isPlaying := False\<rparr>"

text \<open>Both \<open>video\<close> elements are given the same handler (lines 395 and 409), which takes
  no argument.\<close>

datatype eye = LeftEye | RightEye

fun onEnded :: "eye \<Rightarrow> app \<Rightarrow> app" where
  "onEnded LeftEye s = handleVideoEnd s"
| "onEnded RightEye s = handleVideoEnd s"

text \<open>Whether a view is playing, when it is mounted.\<close>

definition view_playing :: "HTMLVideoElement option \<Rightarrow> bool option" where
  "view_playing r = map_option (\<lambda>v. \<not> paused v) r"

section \<open>Download\<close>

text \<open>\<open>String.prototype.split\<close> with a separator of one character: the pieces between
  the separators, in order; the empty string gives one empty piece.\<close>

fun split :: "char \<Rightarrow> string \<Rightarrow> string list" where
  "split c [] = [[]]"
| "split c (x # xs) =
     (if x = c then [] # split c xs
      else (case split c xs of
              [] \<Rightarrow> [[x]]
            | p # ps \<Rightarrow> (x # p) # ps))"

text \<open>The anchor element \<open>downloadVideo\<close> creates and clicks.\<close>

record anchor =
  href :: string
  download_attr :: string

text \<open>
  \<open>downloadVideo\<close>, lines 165-174. With no uploaded video the optional chain
  \<open>uploadedVideo?.name.split('.')[0]\<close> is \<open>undefined\<close>, which the template literal prints
  as the text \<open>undefined\<close>, and \<open>uploadedVideo?.url || ''\<close> is the empty string. An index
  past the end of an array is \<open>undefined\<close> too.
\<close>

definition downloadVideo :: "app \<Rightarrow> anchor \<times> app" where
  "downloadVideo s =
     (\<lparr>href = (case uploadedVideo s of None \<Rightarrow> [] | Some v \<Rightarrow> url v),
       download_attr =
         (case uploadedVideo s of
            None \<Rightarrow> ''undefined''
          | Some v \<Rightarrow>
              (case split (CHR ''.'') (VideoFile.name v) of
                 [] \<Rightarrow> ''undefined''
               | p # _ \<Rightarrow> p)) @ ''_VR180.mp4''\<rparr>,
      s\<lparr>currentStep := download\<rparr>)"

section \<open>The staged progress engine\<close>

text \<open>The initial state of the hooks, lines 20-34: four stages, nothing uploaded, no element
  mounted, no timer pending. The four objects of the array literal are at addresses 0 to 3.\<close>

definition initial_steps :: "ProcessingStep list" where
  "initial_steps =
     [\<lparr>name = ''3D Depth Mapping'',
       description = ''Creating detailed depth maps from 2D footage using AI'',
       progress = 0, completed = False\<rparr>,
      \<lparr>name = ''Stereoscopic Rendering'',
       description = ''Generating left and right eye views for 3D effect'',
       progress = 0, completed = False\<rparr>,
      \<lparr>name = ''VR 180 Conversion'',
       description = ''Converting to immersive 3D VR 180 format'',
       progress = 0, completed = False\<rparr>,
      \<lparr>name = ''3D Quality Enhancement'',
       description = ''Optimizing 3D depth and VR viewing experience'',
       progress = 0, completed = False\<rparr>]"

definition initial_app :: app where
  "initial_app =
     \<lparr>currentStep = upload, uploadedVideo = None, isDragging = False, isPlaying = False,
      processingSteps = [0, 1, 2, 3], overallProgress = 0, isProcessing = False,
      fileInputRef = Some [], leftVideoRef = None, rightVideoRef = None,
      heap = (\<lambda>r. initial_steps ! (if r < 4 then r else 0)), next_ref = 4, timers = []\<rparr>"

text \<open>\<open>const progressIncrement = 100 / 50\<close>, line 122.\<close>

definition progressIncrement :: rat where
  "progressIncrement = 100 / 50"

text \<open>The delays handed to \<open>setInterval\<close> (line 144) and \<open>setTimeout\<close> (line 138), in
  milliseconds.\<close>

fun delay :: "timer \<Rightarrow> nat" where
  "delay (StepInterval steps currentStepIndex step stepProgress) = 80"
| "delay (StepTimeout steps currentStepIndex) = 500"

text \<open>
  \<open>processStep\<close>, lines 113-145, up to the registration of the interval: past the last stage
  it signals completion, otherwise it starts the interval of stage \<open>currentStepIndex\<close> with
  \<open>step = steps[currentStepIndex]\<close> and \<open>stepProgress = 0\<close>.
\<close>

definition processStep :: "nat list \<Rightarrow> nat \<Rightarrow> app \<Rightarrow> app" where
  "processStep steps currentStepIndex s =
     (if currentStepIndex \<ge> length steps then
        s\<lparr>overallProgress := 100, isProcessing := False, currentStep := preview\<rparr>
      else
        s\<lparr>timers := timers s @ [StepInterval steps currentStepIndex (steps ! currentStepIndex) 0]\<rparr>)"

text \<open>\<open>startProcessing\<close>, lines 105-148. There is no check before the first \<open>processStep()\<close>.\<close>

definition startProcessing :: "app \<Rightarrow> app" where
  "startProcessing s =
     processStep (processingSteps s) 0 (s\<lparr>currentStep := processing, isProcessing := True\<rparr>)"

definition remove_nth :: "nat \<Rightarrow> 'a list \<Rightarrow> 'a list" where
  "remove_nth k xs = take k xs @ drop (Suc k) xs"

text \<open>
  The callback of the interval, lines 125-144, run for the pending timer number \<open>k\<close>. The
  branch that completes the stage clears the interval and registers the timeout; the other
  branch leaves the interval pending, with the new \<open>stepProgress\<close>. The divisions are by
  \<open>steps.length\<close>, which is positive whenever an interval exists. They are exact here and
  rounded to a double in the source; \<open>stepProgress\<close> itself only takes the even integers up
  to 100, which are exact in both.
\<close>

definition stepInterval :: "nat \<Rightarrow> nat list \<Rightarrow> nat \<Rightarrow> nat \<Rightarrow> rat \<Rightarrow> app \<Rightarrow> app" where
  "stepInterval k steps currentStepIndex step stepProgress s =
     (if stepProgress + progressIncrement \<ge> 100 then
        s\<lparr>heap := (heap s)(step := (heap s step)\<lparr>progress := 100, completed := True\<rparr>),
          processingSteps := steps,
          overallProgress := (of_nat (currentStepIndex + 1) / of_nat (length steps)) * 100,
          timers := remove_nth k (timers s) @ [StepTimeout steps (currentStepIndex + 1)]\<rparr>
      else
        s\<lparr>heap := (heap s)(step := (heap s step)\<lparr>progress := stepProgress + progressIncrement\<rparr>),
          processingSteps := steps,
          overallProgress :=
            (of_nat currentStepIndex / of_nat (length steps)) * 100
              + (stepProgress + progressIncrement) / of_nat (length steps),
          timers := (timers s)[k := StepInterval steps currentStepIndex step
                                       (stepProgress + progressIncrement)]\<rparr>)"

text \<open>
  The event loop runs the callback of one pending timer: \<open>fire k s\<close> is the state after the
  callback of the pending timer number \<open>k\<close>. A timeout is gone once it has fired. Where no
  such timer is pending nothing runs and the state stays as it is.
\<close>

definition fire :: "nat \<Rightarrow> app \<Rightarrow> app" where
  "fire k s =
     (if k < length (timers s) then
        (case timers s ! k of
           StepInterval steps currentStepIndex step stepProgress \<Rightarrow>
             stepInterval k steps currentStepIndex step stepProgress s
         | StepTimeout steps currentStepIndex \<Rightarrow>
             processStep steps currentStepIndex (s\<lparr>timers := remove_nth k (timers s)\<rparr>))
      else s)"

text \<open>\<open>run n s\<close>: the state after the next \<open>n\<close> callbacks, always of the oldest pending
  timer. A single run has one pending timer at a time, so this is its schedule.\<close>

fun run :: "nat \<Rightarrow> app \<Rightarrow> app" where
  "run 0 s = s"
| "run (Suc n) s = run n (fire 0 s)"

text \<open>
  What a callback does, read off the timer before it fires: a tick that leaves stage \<open>i\<close>
  below 100, the tick that completes stage \<open>i\<close>, the end of a pause that starts stage \<open>i\<close>,
  or the end of a pause that signals completion.
\<close>

datatype event = Tick nat | StageCompleted nat | StageStarted nat | RunCompleted

fun event_of :: "timer \<Rightarrow> event" where
  "event_of (StepInterval steps currentStepIndex step stepProgress) =
     (if stepProgress + progressIncrement \<ge> 100 then StageCompleted currentStepIndex
      else Tick currentStepIndex)"
| "event_of (StepTimeout steps currentStepIndex) =
     (if currentStepIndex \<ge> length steps then RunCompleted else StageStarted currentStepIndex)"

fun is_tick :: "event \<Rightarrow> bool" where
  "is_tick (Tick i) = True"
| "is_tick (StageCompleted i) = True"
| "is_tick _ = False"

fun is_pause_end :: "event \<Rightarrow> bool" where
  "is_pause_end (StageStarted i) = True"
| "is_pause_end RunCompleted = True"
| "is_pause_end _ = False"

text \<open>The events of the next \<open>n\<close> callbacks; the list ends early when no timer is left.\<close>

fun events :: "nat \<Rightarrow> app \<Rightarrow> event list" where
  "events 0 s = []"
| "events (Suc n) s =
     (case timers s of
        [] \<Rightarrow> []
      | t # ts \<Rightarrow> event_of t # events n (fire 0 s))"

text \<open>
  \<open>resetProcess\<close>, lines 150-163. The \<open>map\<close> allocates one new object per stage, a copy of the
  old one with \<open>progress\<close> and \<open>completed\<close> overwritten. No timer is touched: the handles of
  the interval and of the timeout are local to \<open>processStep\<close>.
\<close>

definition resetProcess :: "app \<Rightarrow> app" where
  "resetProcess s =
     (let n = length (processingSteps s); a = next_ref s in
      s\<lparr>currentStep := upload,
        uploadedVideo := None,
        isProcessing := False,
        overallProgress := 0,
        processingSteps := [a ..< a + n],
        heap := (\<lambda>r. if a \<le> r \<and> r < a + n
                      then (heap s (processingSteps s ! (r - a)))\<lparr>progress := 0, completed := False\<rparr>
                      else heap s r),
        next_ref := a + n,
        fileInputRef := map_option (\<lambda>_. []) (fileInputRef s)\<rparr>)"

text \<open>
  The state a run starts from: no timer pending, the stages distinct objects at progress 0
  and not completed, the overall progress 0.
\<close>

definition idle :: "app \<Rightarrow> bool" where
  "idle s \<longleftrightarrow>
     timers s = [] \<and> overallProgress s = 0 \<and> distinct (processingSteps s) \<and>
     list_all (\<lambda>r. progress (heap s r) = 0 \<and> \<not> completed (heap s r)) (processingSteps s)"

section \<open>The course of a run, in closed form\<close>

text \<open>
  A stage takes 51 callbacks: 50 ticks of the interval and the end of one pause. After \<open>p\<close>
  callbacks of a run over the stages \<open>refs\<close> the run is in stage \<open>p div 51\<close>, \<open>p mod 51\<close>
  callbacks into it. The functions below say what the state then holds; \<open>run_inv\<close> collects
  them, and is shown to hold along every run from an idle state.
\<close>

definition stage_progress :: "nat \<Rightarrow> nat \<Rightarrow> rat" where
  "stage_progress p m =
     (if p \<ge> 51 * m + 50 then 100 else if p \<ge> 51 * m then 2 * of_nat (p - 51 * m) else 0)"

definition overall_at :: "nat \<Rightarrow> nat \<Rightarrow> rat" where
  "overall_at N p =
     (if p \<ge> 51 * N then 100 else of_nat (100 * (p div 51) + 2 * (p mod 51)) / of_nat N)"

definition timers_at :: "nat list \<Rightarrow> nat \<Rightarrow> timer list" where
  "timers_at refs p =
     (if p \<ge> 51 * length refs then []
      else if p mod 51 = 50 then [StepTimeout refs (p div 51 + 1)]
      else [StepInterval refs (p div 51) (refs ! (p div 51)) (2 * of_nat (p mod 51))])"

definition run_inv :: "nat list \<Rightarrow> nat \<Rightarrow> app \<Rightarrow> bool" where
  "run_inv refs p s \<longleftrightarrow>
     processingSteps s = refs \<and> timers s = timers_at refs p \<and>
     overallProgress s = overall_at (length refs) p \<and>
     (\<forall>m < length refs. progress (heap s (refs ! m)) = stage_progress p m \<and>
                         completed (heap s (refs ! m)) = (p \<ge> 51 * m + 50)) \<and>
     currentStep s = (if p \<ge> 51 * length refs then preview else processing) \<and>
     isProcessing s = (p < 51 * length refs)"

text \<open>The events of stage \<open>i\<close> of \<open>N\<close>: 49 ticks, the tick that completes it, the end of the
  pause.\<close>

definition stage_events :: "nat \<Rightarrow> nat \<Rightarrow> event list" where
  "stage_events N i =
     replicate 49 (Tick i) @
     [StageCompleted i, if Suc i < N then StageStarted (Suc i) else RunCompleted]"

text \<open>A state of the preview view after a run of the default pipeline: every stage completed,
  a video uploaded, both \<open>video\<close> elements mounted and paused, the file input unmounted.\<close>

definition previewing :: app where
  "previewing = initial_app\<lparr>currentStep := preview, overallProgress := 100,
      uploadedVideo := Some \<lparr>url = ''blob:1'', name = ''my.clip.mov'', size = ''1 MB''\<rparr>,
      heap := (\<lambda>r. (heap initial_app r)\<lparr>progress := 100, completed := True\<rparr>),
      fileInputRef := None,
      leftVideoRef := Some \<lparr>src = ''blob:1'', paused = True\<rparr>,
      rightVideoRef := Some \<lparr>src = ''blob:1'', paused = True\<rparr>\<rparr>"

text \<open>
  A sufficient condition for a rational to be a double: it is \<open>m / 2 ^ e\<close> with a mantissa
  \<open>m\<close> of at most 53 bits and \<open>e\<close> within the exponent range. The arithmetic of IEEE 754
  rounds correctly, so an operation whose exact result is such a number returns it.
\<close>

definition double_exact :: "rat \<Rightarrow> bool" where
  "double_exact q \<longleftrightarrow> (\<exists>(m::int) (e::nat). q = of_int m / 2 ^ e \<and> \<bar>m\<bar> < 2 ^ 53 \<and> e \<le> 1074)"

section \<open>Lemmas on runs\<close>

lemma run_inv_start:
  assumes "idle s"
  shows "run_inv (processingSteps s) 0 (startProcessing s)"
  using assms
  by (auto simp: idle_def run_inv_def startProcessing_def processStep_def timers_at_def
      overall_at_def stage_progress_def list_all_length)

lemma pos_arith:
  fixes i j N :: nat
  assumes "j < 51"
  shows "(51 * i + j) div 51 = i" and "(51 * i + j) mod 51 = j"
    and "(51 * i + j < 51 * N) = (i < N)"
    and "(51 * N \<le> 51 * i + j) = (N \<le> i)"
    and "(51 * m + 50 \<le> 51 * i + j) = (m < i \<or> (m = i \<and> j = 50))"
    and "(51 * m \<le> 51 * i + j) = (m \<le> i)"
  using assms by auto

lemma run_inv_tick:
  assumes inv: "run_inv refs (51 * i + j) s" and d: "distinct refs" and i: "i < length refs"
    and j: "j < 49"
  shows "run_inv refs (51 * i + Suc j) (fire 0 s)"
proof -
  have j51: "j < 51" "Suc j < 51" using j by auto
  have t: "timers s = [StepInterval refs i (refs ! i) (2 * of_nat j)]"
    using inv i j by (simp add: run_inv_def timers_at_def pos_arith[OF j51(1)])
  have lt: "\<not> (100::rat) \<le> 2 * of_nat j + 2"
  proof -
    have "(2 * of_nat j + 2 :: rat) = of_nat (2 * j + 2)" by simp
    also have "\<dots> < of_nat 100" using j unfolding of_nat_less_iff by simp
    finally show ?thesis by simp
  qed
  show ?thesis
    using inv d i j lt
    unfolding run_inv_def fire_def t stepInterval_def progressIncrement_def
      timers_at_def overall_at_def stage_progress_def pos_arith[OF j51(1)] pos_arith[OF j51(2)]
    by (simp add: nth_eq_iff_index_eq add_divide_distrib algebra_simps)
qed

lemma run_inv_complete_stage:
  assumes inv: "run_inv refs (51 * i + 49) s" and d: "distinct refs" and i: "i < length refs"
  shows "run_inv refs (51 * i + 50) (fire 0 s)"
proof -
  have j51: "(49::nat) < 51" "(50::nat) < 51" by auto
  have t: "timers s = [StepInterval refs i (refs ! i) (2 * of_nat 49)]"
    using inv i by (simp add: run_inv_def timers_at_def pos_arith[OF j51(1)])
  show ?thesis
    using inv d i
    unfolding run_inv_def fire_def t stepInterval_def progressIncrement_def remove_nth_def
      timers_at_def overall_at_def stage_progress_def pos_arith[OF j51(1)] pos_arith[OF j51(2)]
    by (simp add: nth_eq_iff_index_eq add_divide_distrib algebra_simps)
qed

lemma run_inv_pause_end:
  assumes inv: "run_inv refs (51 * i + 50) s" and i: "i < length refs"
  shows "run_inv refs (51 * Suc i + 0) (fire 0 s)"
proof -
  have j51: "(50::nat) < 51" "(0::nat) < 51" by auto
  have t: "timers s = [StepTimeout refs (i + 1)]"
    using inv i by (simp add: run_inv_def timers_at_def pos_arith[OF j51(1)])
  show ?thesis
    using inv i
    unfolding run_inv_def fire_def t processStep_def remove_nth_def
      timers_at_def overall_at_def stage_progress_def pos_arith[OF j51(1)] pos_arith[OF j51(2)]
    by (auto simp: add_divide_distrib algebra_simps)
qed

lemma run_inv_done:
  assumes inv: "run_inv refs p s" and p: "51 * length refs \<le> p"
  shows "run_inv refs (Suc p) (fire 0 s)"
proof -
  have t: "timers s = []"
    using inv p by (simp add: run_inv_def timers_at_def)
  have "fire 0 s = s" by (simp add: fire_def t)
  moreover have "run_inv refs (Suc p) s"
    using inv p unfolding run_inv_def timers_at_def overall_at_def stage_progress_def
    by auto
  ultimately show ?thesis by simp
qed

lemma run_inv_step:
  assumes inv: "run_inv refs p s" and d: "distinct refs"
  shows "run_inv refs (Suc p) (fire 0 s)"
proof (cases "51 * length refs \<le> p")
  case True
  then show ?thesis using inv by (rule run_inv_done[rotated])
next
  case False
  define i where "i = p div 51"
  define j where "j = p mod 51"
  have p: "p = 51 * i + j" and j: "j < 51" by (simp_all add: i_def j_def)
  have i: "i < length refs" using False p by auto
  consider "j < 49" | "j = 49" | "j = 50" using j by linarith
  then show ?thesis
  proof cases
    case 1
    have e: "Suc p = 51 * i + Suc j" using p by simp
    show ?thesis unfolding e by (rule run_inv_tick[OF inv[unfolded p] d i 1])
  next
    case 2
    have e: "Suc p = 51 * i + 50" using p 2 by simp
    show ?thesis unfolding e by (rule run_inv_complete_stage[OF inv[unfolded p 2] d i])
  next
    case 3
    have e: "Suc p = 51 * Suc i + 0" using p 3 by simp
    show ?thesis unfolding e by (rule run_inv_pause_end[OF inv[unfolded p 3] i])
  qed
qed

lemma run_inv_run:
  assumes "run_inv refs p s" and "distinct refs"
  shows "run_inv refs (p + n) (run n s)"
  using assms
proof (induction n arbitrary: p s)
  case 0
  then show ?case by simp
next
  case (Suc n)
  from Suc.IH[OF run_inv_step[OF Suc.prems] Suc.prems(2)] show ?case by simp
qed

lemma run_inv_from_start:
  assumes "idle s"
  shows "run_inv (processingSteps s) n (run n (startProcessing s))"
  using run_inv_run[OF run_inv_start[OF assms], of n] assms by (simp add: idle_def)

lemma events_nonempty:
  assumes "\<forall>q < n. timers (run q s) \<noteq> []"
  shows "events n s = map (\<lambda>q. event_of (hd (timers (run q s)))) [0..<n]"
  using assms
proof (induction n arbitrary: s)
  case 0
  then show ?case by simp
next
  case (Suc n)
  from Suc.prems have "timers (run 0 s) \<noteq> []" by blast
  then obtain t ts where t: "timers s = t # ts" by (cases "timers s") auto
  have "\<forall>q < n. timers (run q (fire 0 s)) \<noteq> []"
    using Suc.prems by (metis Suc_less_eq run.simps(2))
  from Suc.IH[OF this]
  have "events n (fire 0 s) = map (\<lambda>q. event_of (hd (timers (run (Suc q) s)))) [0..<n]"
    by simp
  then show ?case
    by (simp add: t upt_conv_Cons map_Suc_upt[symmetric] del: upt_Suc)
qed

lemma fire_no_timer: "timers s = [] \<Longrightarrow> fire k s = s"
  by (simp add: fire_def)

lemma run_no_timer: "timers s = [] \<Longrightarrow> run n s = s"
  by (induction n) (simp_all add: fire_no_timer)

lemma events_no_timer: "timers s = [] \<Longrightarrow> events n s = []"
  by (cases n) simp_all

lemma events_add: "events (n + k) s = events n s @ events k (run n s)"
proof (induction n arbitrary: s)
  case 0
  then show ?case by simp
next
  case (Suc n)
  show ?case
  proof (cases "timers s")
    case Nil
    then show ?thesis by (simp add: events_no_timer run_no_timer fire_no_timer)
  next
    case (Cons t ts)
    then show ?thesis using Suc.IH[of "fire 0 s"] by simp
  qed
qed

lemma event_at_tick:
  assumes "j < 49"
  shows "event_of (hd (timers_at refs (51 * i + j))) =
           (if i < length refs then Tick i else event_of (hd []))"
proof -
  have j51: "j < 51" using assms by simp
  have lt: "\<not> (100::rat) \<le> 2 * of_nat j + 2"
  proof -
    have "(2 * of_nat j + 2 :: rat) = of_nat (2 * j + 2)" by simp
    also have "\<dots> < of_nat 100" using assms unfolding of_nat_less_iff by simp
    finally show ?thesis by simp
  qed
  show ?thesis using assms lt
    by (simp add: timers_at_def pos_arith[OF j51] progressIncrement_def)
qed

lemma stage_events_run:
  assumes inv: "run_inv refs (51 * i) s" and d: "distinct refs" and i: "i < length refs"
  shows "events 51 s = stage_events (length refs) i"
proof -
  have t: "timers (run q s) = timers_at refs (51 * i + q)" for q
    using run_inv_run[OF inv d, of q] by (simp add: run_inv_def)
  have ne: "\<forall>q < 51. timers (run q s) \<noteq> []"
    using i by (simp add: t timers_at_def pos_arith)
  have "events 51 s = map (\<lambda>q. event_of (hd (timers_at refs (51 * i + q)))) [0..<51]"
    using events_nonempty[OF ne] by (simp add: t)
  also have "\<dots> = stage_events (length refs) i"
  proof (rule nth_equalityI)
    show "length (map (\<lambda>q. event_of (hd (timers_at refs (51 * i + q)))) [0..<51]) =
          length (stage_events (length refs) i)"
      by (simp add: stage_events_def)
  next
    fix q
    assume "q < length (map (\<lambda>q. event_of (hd (timers_at refs (51 * i + q)))) [0..<51])"
    then have q: "q < 51" by simp
    then consider "q < 49" | "q = 49" | "q = 50" by linarith
    then show "map (\<lambda>q. event_of (hd (timers_at refs (51 * i + q)))) [0..<51] ! q =
               stage_events (length refs) i ! q"
    proof cases
      case 1
      then show ?thesis using q i
        by (simp add: event_at_tick stage_events_def nth_append del: upt_Suc)
    next
      case 2
      then show ?thesis using i
        by (simp add: timers_at_def pos_arith progressIncrement_def stage_events_def
            nth_append del: upt_Suc)
    next
      case 3
      then show ?thesis using i
        by (auto simp: timers_at_def pos_arith stage_events_def nth_append simp del: upt_Suc)
    qed
  qed
  finally show ?thesis .
qed

lemma events_stages:
  assumes inv: "run_inv refs 0 s" and d: "distinct refs" and M: "M \<le> length refs"
  shows "events (51 * M) s = concat (map (stage_events (length refs)) [0..<M])"
  using M
proof (induction M)
  case 0
  then show ?case by simp
next
  case (Suc M)
  have inv': "run_inv refs (51 * M) (run (51 * M) s)"
    using run_inv_run[OF inv d, of "51 * M"] by simp
  have "51 * Suc M = 51 * M + 51" by simp
  then have "events (51 * Suc M) s = events (51 * M + 51) s" by (rule arg_cong)
  also have "\<dots> = events (51 * M) s @ events 51 (run (51 * M) s)"
    by (rule events_add)
  also have "\<dots> = concat (map (stage_events (length refs)) [0..<M]) @
                    stage_events (length refs) M"
    using Suc stage_events_run[OF inv' d] by simp
  finally show ?case by simp
qed

lemma events_complete:
  assumes "idle s"
  shows "events (51 * length (processingSteps s) + k) (startProcessing s) =
           concat (map (stage_events (length (processingSteps s))) [0..<length (processingSteps s)])"
proof -
  let ?refs = "processingSteps s"
  have inv: "run_inv ?refs 0 (startProcessing s)" by (rule run_inv_start[OF assms])
  have d: "distinct ?refs" using assms by (simp add: idle_def)
  have "timers (run (51 * length ?refs) (startProcessing s)) = []"
    using run_inv_run[OF inv d, of "51 * length ?refs"] by (simp add: run_inv_def timers_at_def)
  then show ?thesis
    by (simp add: events_add events_no_timer events_stages[OF inv d])
qed

lemma count_concat:
  assumes "\<And>x. x \<in> set xs \<Longrightarrow> length (filter P (f x)) = c"
  shows "length (filter P (concat (map f xs))) = c * length xs"
  using assms by (induction xs) simp_all

lemma overall_at_Suc: "overall_at N p \<le> overall_at N (Suc p)"
proof (cases "51 * N \<le> p")
  case True
  then show ?thesis by (simp add: overall_at_def)
next
  case False
  define i where "i = p div 51"
  define j where "j = p mod 51"
  have p: "p = 51 * i + j" and j: "j < 51" by (simp_all add: i_def j_def)
  have i: "i < N" using False p by auto
  have N: "(0::rat) < of_nat N" using i by simp
  show ?thesis
  proof (cases "j = 50")
    case True
    have e: "Suc p = 51 * Suc i + 0" using p True by simp
    have z: "(0::nat) < 51" by simp
    have e0: "p = 51 * i + 50" using p True by simp
    have z0: "(50::nat) < 51" by simp
    have "overall_at N p = of_nat (100 * Suc i) / of_nat N"
      using i unfolding e0 overall_at_def pos_arith[OF z0] by simp
    moreover have "overall_at N (Suc p) =
        (if Suc i < N then of_nat (100 * Suc i) / of_nat N else 100)"
      unfolding e overall_at_def pos_arith[OF z] by auto
    moreover have "Suc i = N \<Longrightarrow> (of_nat (100 * Suc i) / of_nat N :: rat) = 100"
      by auto
    ultimately show ?thesis using i by (cases "Suc i < N") auto
  next
    case False
    then have j': "Suc j < 51" using j by simp
    have e: "Suc p = 51 * i + Suc j" using p by simp
    have "overall_at N p = of_nat (100 * i + 2 * j) / of_nat N"
      using i unfolding p overall_at_def pos_arith[OF j] by simp
    moreover have "overall_at N (Suc p) = of_nat (100 * i + 2 * Suc j) / of_nat N"
      using i unfolding e overall_at_def pos_arith[OF j'] by simp
    moreover have "(of_nat (100 * i + 2 * j) :: rat) \<le> of_nat (100 * i + 2 * Suc j)"
      unfolding of_nat_le_iff by simp
    ultimately show ?thesis using N by (simp add: divide_right_mono)
  qed
qed

lemma overall_at_mono: "p \<le> q \<Longrightarrow> overall_at N p \<le> overall_at N q"
  by (rule lift_Suc_mono_le[of "overall_at N"]) (auto simp: overall_at_Suc)

lemma overall_at_100:
  assumes "overall_at N p = 100"
  shows "51 * N \<le> Suc p"
proof (rule ccontr)
  assume c: "\<not> 51 * N \<le> Suc p"
  define i where "i = p div 51"
  define j where "j = p mod 51"
  have p: "p = 51 * i + j" and j: "j < 51" by (simp_all add: i_def j_def)
  have lt: "p < 51 * N" using c by simp
  then have i: "i < N" using p by auto
  have N: "(of_nat N :: rat) \<noteq> 0" using i by simp
  have "(of_nat (100 * i + 2 * j) :: rat) / of_nat N = 100"
    using assms i unfolding p overall_at_def pos_arith[OF j] by simp
  then have "(of_nat (100 * i + 2 * j) :: rat) = 100 * of_nat N"
    using N by (simp add: field_simps)
  also have "\<dots> = of_nat (100 * N)" by simp
  finally have "100 * i + 2 * j = 100 * N" unfolding of_nat_eq_iff .
  then show False using c p i j by linarith
qed

lemma stage_progress_100: "(stage_progress p m = 100) = (51 * m + 50 \<le> p)"
proof (cases "51 * m + 50 \<le> p")
  case True
  then show ?thesis by (simp add: stage_progress_def)
next
  case False
  show ?thesis
  proof (cases "51 * m \<le> p")
    case True
    have "(2 * of_nat (p - 51 * m) :: rat) = of_nat (2 * (p - 51 * m))" by simp
    also have "\<dots> < of_nat 100" using False unfolding of_nat_less_iff by simp
    finally show ?thesis using False True by (simp add: stage_progress_def)
  next
    case F: False
    then show ?thesis using False by (simp add: stage_progress_def)
  qed
qed

lemma run_snapshot:
  assumes "idle s" and "m < length (processingSteps s)"
  shows "progress (snapshot (run p (startProcessing s)) ! m) = stage_progress p m"
    and "completed (snapshot (run p (startProcessing s)) ! m) = (51 * m + 50 \<le> p)"
  using run_inv_from_start[OF assms(1), of p] assms(2)
  by (simp_all add: run_inv_def snapshot_def)

lemma run_snapshot_length:
  assumes "idle s"
  shows "length (snapshot (run p (startProcessing s))) = length (processingSteps s)"
  using run_inv_from_start[OF assms, of p] by (simp add: run_inv_def snapshot_def)

lemma run_overall:
  assumes "idle s"
  shows "overallProgress (run p (startProcessing s)) = overall_at (length (processingSteps s)) p"
  using run_inv_from_start[OF assms, of p] by (simp add: run_inv_def)

lemma run_timers:
  assumes "idle s"
  shows "timers (run p (startProcessing s)) = timers_at (processingSteps s) p"
  using run_inv_from_start[OF assms, of p] by (simp add: run_inv_def)

lemma idle_initial_app: "idle initial_app"
  by (simp add: idle_def initial_app_def initial_steps_def)

lemma overall_at_boundary:
  assumes "i < N"
  shows "overall_at N (51 * i + 50) = 100 * of_nat (i + 1) / of_nat N"
proof -
  have z: "(50::nat) < 51" by simp
  show ?thesis using assms unfolding overall_at_def pos_arith[OF z]
    by (simp add: algebra_simps)
qed

lemma run_event:
  assumes "idle s" and "p < 51 * length (processingSteps s)" and "p < n"
  shows "events n (startProcessing s) ! p = event_of (hd (timers_at (processingSteps s) p))"
proof -
  have ne: "\<forall>q < Suc p. timers (run q (startProcessing s)) \<noteq> []"
    using assms(2) by (auto simp: run_timers[OF assms(1)] timers_at_def)
  obtain k where n: "n = Suc p + k" using assms(3) less_iff_Suc_add by auto
  have "events n (startProcessing s) ! p = events (Suc p) (startProcessing s) ! p"
  proof -
    have "length (events (Suc p) (startProcessing s)) = Suc p"
      using events_nonempty[OF ne] by simp
    then show ?thesis unfolding n events_add by (simp add: nth_append)
  qed
  also have "\<dots> = event_of (hd (timers (run p (startProcessing s))))"
    unfolding events_nonempty[OF ne] by (simp del: upt_Suc)
  finally show ?thesis by (simp add: run_timers[OF assms(1)])
qed

lemma filter_concat_empty:
  assumes "\<And>x. x \<in> set xs \<Longrightarrow> filter P (f x) = []"
  shows "filter P (concat (map f xs)) = []"
  using assms by (induction xs) simp_all

lemma stage_events_ticks: "length (filter is_tick (stage_events N i)) = 50"
  by (simp add: stage_events_def)

lemma stage_events_pauses: "length (filter is_pause_end (stage_events N i)) = 1"
  by (simp add: stage_events_def)

lemma trace_ticks:
  "length (filter is_tick (concat (map (stage_events N) [0..<N]))) = 50 * N"
  using count_concat[of "[0..<N]" is_tick "stage_events N" 50]
  by (simp add: stage_events_ticks)

lemma trace_pauses:
  "length (filter is_pause_end (concat (map (stage_events N) [0..<N]))) = N"
  using count_concat[of "[0..<N]" is_pause_end "stage_events N" 1]
  by (simp add: stage_events_pauses)

lemma trace_completed_once:
  assumes "0 < N"
  shows "filter (\<lambda>e. e = RunCompleted) (concat (map (stage_events N) [0..<N])) = [RunCompleted]"
proof -
  obtain M where N: "N = Suc M" using assms by (cases N) auto
  have "filter (\<lambda>e. e = RunCompleted) (concat (map (stage_events N) [0..<M])) = []"
    by (rule filter_concat_empty) (simp add: stage_events_def N)
  moreover have "filter (\<lambda>e. e = RunCompleted) (stage_events N M) = [RunCompleted]"
    by (simp add: stage_events_def N)
  ultimately show ?thesis by (simp add: N)
qed

lemma run_status:
  assumes "idle s"
  shows "currentStep (run p (startProcessing s)) =
           (if 51 * length (processingSteps s) \<le> p then preview else processing)"
    and "isProcessing (run p (startProcessing s)) = (p < 51 * length (processingSteps s))"
  using run_inv_from_start[OF assms, of p] by (simp_all add: run_inv_def)

lemma timers_at_pause:
  assumes "i < length refs"
  shows "timers_at refs (51 * i + 50) = [StepTimeout refs (Suc i)]"
proof -
  have z: "(50::nat) < 51" by simp
  show ?thesis using assms unfolding timers_at_def pos_arith[OF z] by simp
qed

lemma first_tick:
  "run 1 (startProcessing initial_app) =
     initial_app\<lparr>currentStep := processing, isProcessing := True,
       heap := (heap initial_app)(0 := (heap initial_app 0)\<lparr>progress := 2\<rparr>),
       overallProgress := 1 / 2,
       timers := [StepInterval [0, 1, 2, 3] 0 0 2]\<rparr>"
  by (simp add: startProcessing_def processStep_def fire_def stepInterval_def
      progressIncrement_def initial_app_def)

lemma boundary_state:
  assumes "idle s" and "i < length (processingSteps s)"
  shows "progress (snapshot (run (51 * i + 49) (startProcessing s)) ! i) < 100 \<and>
         events (51 * i + 50) (startProcessing s) ! (51 * i + 49) = StageCompleted i \<and>
         progress (snapshot (run (51 * i + 50) (startProcessing s)) ! i) = 100 \<and>
         completed (snapshot (run (51 * i + 50) (startProcessing s)) ! i) \<and>
         overallProgress (run (51 * i + 50) (startProcessing s))
           = 100 * of_nat (i + 1) / of_nat (length (processingSteps s))"
proof (intro conjI)
  show "progress (snapshot (run (51 * i + 49) (startProcessing s)) ! i) < 100"
    by (simp add: run_snapshot[OF assms] stage_progress_def)
next
  have z: "(49::nat) < 51" by simp
  have "51 * i + 49 < 51 * length (processingSteps s)" using assms(2) by simp
  from run_event[OF assms(1) this, of "51 * i + 50"]
  show "events (51 * i + 50) (startProcessing s) ! (51 * i + 49) = StageCompleted i"
    using assms(2) unfolding timers_at_def pos_arith[OF z]
    by (simp add: progressIncrement_def)
next
  show "progress (snapshot (run (51 * i + 50) (startProcessing s)) ! i) = 100"
    by (simp add: run_snapshot[OF assms] stage_progress_def)
next
  show "completed (snapshot (run (51 * i + 50) (startProcessing s)) ! i)"
    by (simp add: run_snapshot[OF assms])
next
  show "overallProgress (run (51 * i + 50) (startProcessing s))
           = 100 * of_nat (i + 1) / of_nat (length (processingSteps s))"
    by (simp only: run_overall[OF assms(1)] overall_at_boundary[OF assms(2)])
qed

lemma default_boundaries:
  "idle initial_app \<and>
   map (\<lambda>i. overallProgress (run (51 * i + 50) (startProcessing initial_app))) [0, 1, 2, 3]
     = [25, 50, 75, 100] \<and>
   map (\<lambda>i. completed (snapshot (run (51 * i + 50) (startProcessing initial_app)) ! i))
     [0, 1, 2, 3] = [True, True, True, True]"
proof -
  have len: "length (processingSteps initial_app) = 4" by (simp add: initial_app_def)
  have i: "0 < length (processingSteps initial_app)" "1 < length (processingSteps initial_app)"
    "2 < length (processingSteps initial_app)" "3 < length (processingSteps initial_app)"
    by (simp_all add: len)
  show ?thesis
    using boundary_state[OF idle_initial_app i(1)] boundary_state[OF idle_initial_app i(2)]
      boundary_state[OF idle_initial_app i(3)] boundary_state[OF idle_initial_app i(4)]
      idle_initial_app
    by (simp add: len)
qed

section \<open>Stage counts and exact arithmetic\<close>

text \<open>The number of stages never changes: it is four from the start, and a start, a run and a
  reset keep it.\<close>

lemma stage_count_initial: "length (processingSteps initial_app) = 4"
  by (simp add: initial_app_def)

lemma stage_count_startProcessing: "processingSteps (startProcessing s) = processingSteps s"
  by (simp add: startProcessing_def processStep_def)

lemma stage_count_resetProcess:
  "length (processingSteps (resetProcess s)) = length (processingSteps s)"
  by (simp add: resetProcess_def Let_def)

lemma stage_count_run:
  assumes "idle s"
  shows "processingSteps (run p (startProcessing s)) = processingSteps s"
  using run_inv_from_start[OF assms, of p] by (simp add: run_inv_def)

text \<open>
  With \<open>2 ^ k\<close> stages, \<open>k \<le> 31\<close> (an array has fewer than \<open>2 ^ 32\<close> elements), every
  intermediate result of lines 135 and 142 is a double: the two quotients, their products
  with 100, and the sum. With three stages already the first quotient, \<open>1 / 3\<close>, is not.
\<close>

lemma double_exactI:
  fixes n k :: nat
  assumes "n < 2 ^ 53" and "k \<le> 1074"
  shows "double_exact (of_nat n / 2 ^ k)"
  unfolding double_exact_def
proof (intro exI conjI)
  show "(of_nat n / 2 ^ k :: rat) = of_int (int n) / 2 ^ k" by simp
  show "\<bar>int n\<bar> < 2 ^ 53" using assms(1) by (simp add: of_nat_less_numeral_power_cancel_iff)
  show "k \<le> 1074" by (rule assms(2))
qed

lemma quotients_exact:
  fixes i j k :: nat
  assumes k: "k \<le> 31" and i: "i < 2 ^ k" and j: "j \<le> 50"
  shows "double_exact (of_nat (i + 1) / of_nat (2 ^ k))"
    and "double_exact (of_nat (i + 1) / of_nat (2 ^ k) * 100)"
    and "double_exact (of_nat i / of_nat (2 ^ k))"
    and "double_exact (of_nat i / of_nat (2 ^ k) * 100)"
    and "double_exact (2 * of_nat j / of_nat (2 ^ k))"
    and "double_exact (of_nat i / of_nat (2 ^ k) * 100 + 2 * of_nat j / of_nat (2 ^ k))"
proof -
  have "(2::nat) ^ k \<le> 2 ^ 31" using k by (rule power_increasing) simp
  then have b: "i < 2 ^ 31" using i by simp
  have k': "k \<le> 1074" using k by simp
  have "double_exact (of_nat (i + 1) / 2 ^ k)"
    using b by (intro double_exactI k') simp
  then show "double_exact (of_nat (i + 1) / of_nat (2 ^ k))" by simp
  have "double_exact (of_nat (100 * (i + 1)) / 2 ^ k)"
    using b by (intro double_exactI k') simp
  then show "double_exact (of_nat (i + 1) / of_nat (2 ^ k) * 100)" by (simp add: algebra_simps)
  have "double_exact (of_nat i / 2 ^ k)"
    using b by (intro double_exactI k') simp
  then show "double_exact (of_nat i / of_nat (2 ^ k))" by simp
  have "double_exact (of_nat (100 * i) / 2 ^ k)"
    using b by (intro double_exactI k') simp
  then show "double_exact (of_nat i / of_nat (2 ^ k) * 100)" by (simp add: algebra_simps)
  have "double_exact (of_nat (2 * j) / 2 ^ k)"
    using j by (intro double_exactI k') simp
  then show "double_exact (2 * of_nat j / of_nat (2 ^ k))" by simp
  have "double_exact (of_nat (100 * i + 2 * j) / 2 ^ k)"
    using b j by (intro double_exactI k') simp
  then show "double_exact (of_nat i / of_nat (2 ^ k) * 100 + 2 * of_nat j / of_nat (2 ^ k))"
    by (simp add: algebra_simps add_divide_distrib)
qed

lemma power2_mod3: "(2::int) ^ e mod 3 = 1 \<or> (2::int) ^ e mod 3 = 2"
proof (induction e)
  case 0
  then show ?case by simp
next
  case (Suc e)
  have "(2::int) ^ Suc e mod 3 = (2 * (2 ^ e mod 3)) mod 3"
    by (simp add: mod_mult_right_eq)
  with Suc show ?case by auto
qed

lemma third_not_exact: "\<not> double_exact (1 / 3)"
proof
  assume "double_exact (1 / 3)"
  then obtain m :: int and e :: nat where "(1 / 3 :: rat) = of_int m / 2 ^ e"
    unfolding double_exact_def by blast
  then have "(2 ^ e :: rat) = 3 * of_int m" by (simp add: field_simps)
  also have "\<dots> = of_int (3 * m)" by simp
  finally have "(of_int (2 ^ e) :: rat) = of_int (3 * m)" by simp
  then have "(2 ^ e :: int) = 3 * m" unfolding of_int_eq_iff .
  then have "(2::int) ^ e mod 3 = 0" by simp
  with power2_mod3[of e] show False by simp
qed

section \<open>The progress engine: the claims\<close>

text \<open>
  Claim C1, as the code has it: \<open>resetProcess\<close> puts the state at the idle snapshot (wizard at
  \<open>upload\<close>, not processing, overall progress 0, every stage a copy of itself with progress 0
  and not completed) and leaves every pending timer pending. When no timer is pending, as in
  the preview and download views that offer the reset, the state after it is one a run can
  start from, and no callback changes it any more.
\<close>

theorem resetProcess_idle_snapshot:
  "currentStep (resetProcess s) = upload \<and>
   \<not> isProcessing (resetProcess s) \<and>
   overallProgress (resetProcess s) = 0 \<and>
   snapshot (resetProcess s) = map (\<lambda>st. st\<lparr>progress := 0, completed := False\<rparr>) (snapshot s) \<and>
   timers (resetProcess s) = timers s \<and>
   (timers s = [] \<longrightarrow> idle (resetProcess s) \<and> (\<forall>k. fire k (resetProcess s) = resetProcess s))"
proof -
  have 1: "snapshot (resetProcess s) =
           map (\<lambda>st. st\<lparr>progress := 0, completed := False\<rparr>) (snapshot s)"
    by (rule nth_equalityI) (simp_all add: snapshot_def resetProcess_def Let_def)
  have 2: "timers (resetProcess s) = timers s"
    by (simp add: resetProcess_def Let_def)
  have 3: "idle (resetProcess s)" if "timers s = []"
    using that by (simp add: idle_def resetProcess_def Let_def list_all_iff)
  show ?thesis
    using 1 2 3 by (simp add: fire_no_timer) (simp add: resetProcess_def Let_def)
qed

theorem resetProcess_idle_snapshot_witness:
  "timers (run 204 (startProcessing initial_app)) = [] \<and>
   overallProgress (resetProcess (run 204 (startProcessing initial_app))) = 0 \<and>
   idle (resetProcess (run 204 (startProcessing initial_app))) \<and>
   fire 0 (resetProcess (run 204 (startProcessing initial_app)))
     = resetProcess (run 204 (startProcessing initial_app))"
proof -
  have len: "length (processingSteps initial_app) = 4" by (simp add: initial_app_def)
  have t: "timers (run 204 (startProcessing initial_app)) = []"
    unfolding run_timers[OF idle_initial_app] timers_at_def len by simp
  from resetProcess_idle_snapshot[of "run 204 (startProcessing initial_app)"] t
  show ?thesis by blast
qed

text \<open>
  Claim C1 as stated fails for a reset during a run, here after the first tick of the default
  pipeline: the interval is still pending after \<open>resetProcess\<close>, and its next tick puts the
  old stage objects back into the state, stage 0 at progress 4, and the overall progress
  at 1.
\<close>

theorem reset_leaves_interval_running:
  "timers (resetProcess (run 1 (startProcessing initial_app))) = [StepInterval [0, 1, 2, 3] 0 0 2] \<and>
   overallProgress (resetProcess (run 1 (startProcessing initial_app))) = 0 \<and>
   overallProgress (fire 0 (resetProcess (run 1 (startProcessing initial_app)))) = 1 \<and>
   map progress (snapshot (fire 0 (resetProcess (run 1 (startProcessing initial_app)))))
     = [4, 0, 0, 0]"
  unfolding first_tick
  by (simp add: resetProcess_def fire_def stepInterval_def progressIncrement_def snapshot_def
      initial_app_def initial_steps_def Let_def)

text \<open>
  Claim C2, as the code has it: a run over \<open>N\<close> stages from an idle state makes exactly the
  events below and then stops: per stage 49 ticks, the tick that completes the stage, and the
  end of a pause of 500 ms, after the last stage too. That makes \<open>50 * N\<close> ticks and \<open>N\<close>
  pauses. Until the last pause has ended the wizard stays at \<open>processing\<close>; the end of the last
  pause is the one completion signal, after which no timer is pending.
\<close>

theorem run_trace:
  assumes "idle s"
  shows "events (51 * length (processingSteps s) + k) (startProcessing s) =
           concat (map (\<lambda>i. replicate 49 (Tick i) @
                             [StageCompleted i,
                              if Suc i < length (processingSteps s) then StageStarted (Suc i)
                              else RunCompleted])
                       [0..<length (processingSteps s)]) \<and>
         length (filter is_tick
                  (events (51 * length (processingSteps s) + k) (startProcessing s)))
           = 50 * length (processingSteps s) \<and>
         length (filter is_pause_end
                  (events (51 * length (processingSteps s) + k) (startProcessing s)))
           = length (processingSteps s) \<and>
         (0 < length (processingSteps s) \<longrightarrow>
            filter (\<lambda>e. e = RunCompleted)
              (events (51 * length (processingSteps s) + k) (startProcessing s))
            = [RunCompleted]) \<and>
         (\<forall>i < length (processingSteps s).
            timers (run (51 * i + 50) (startProcessing s))
              = [StepTimeout (processingSteps s) (Suc i)] \<and>
            map delay (timers (run (51 * i + 50) (startProcessing s))) = [500]) \<and>
         (\<forall>p < 51 * length (processingSteps s).
            currentStep (run p (startProcessing s)) = processing \<and>
            isProcessing (run p (startProcessing s))) \<and>
         currentStep (run (51 * length (processingSteps s)) (startProcessing s)) = preview \<and>
         \<not> isProcessing (run (51 * length (processingSteps s)) (startProcessing s)) \<and>
         timers (run (51 * length (processingSteps s) + k) (startProcessing s)) = []"
proof -
  let ?N = "length (processingSteps s)"
  have ev: "events (51 * ?N + k) (startProcessing s) = concat (map (stage_events ?N) [0..<?N])"
    by (rule events_complete[OF assms])
  have se: "stage_events ?N = (\<lambda>i. replicate 49 (Tick i) @
                             [StageCompleted i,
                              if Suc i < ?N then StageStarted (Suc i) else RunCompleted])"
    by (rule ext) (simp add: stage_events_def)
  have 1: "events (51 * ?N + k) (startProcessing s) =
           concat (map (\<lambda>i. replicate 49 (Tick i) @
                             [StageCompleted i,
                              if Suc i < ?N then StageStarted (Suc i) else RunCompleted])
                       [0..<?N])"
    unfolding ev se ..
  have 2: "length (filter is_tick (events (51 * ?N + k) (startProcessing s))) = 50 * ?N"
    unfolding ev by (rule trace_ticks)
  have 3: "length (filter is_pause_end (events (51 * ?N + k) (startProcessing s))) = ?N"
    unfolding ev by (rule trace_pauses)
  have 4: "0 < ?N \<longrightarrow> filter (\<lambda>e. e = RunCompleted)
              (events (51 * ?N + k) (startProcessing s)) = [RunCompleted]"
    unfolding ev using trace_completed_once by blast
  have 5: "\<forall>i < ?N. timers (run (51 * i + 50) (startProcessing s))
              = [StepTimeout (processingSteps s) (Suc i)] \<and>
            map delay (timers (run (51 * i + 50) (startProcessing s))) = [500]"
    by (simp add: run_timers[OF assms] timers_at_pause)
  have 6: "\<forall>p < 51 * ?N. currentStep (run p (startProcessing s)) = processing \<and>
            isProcessing (run p (startProcessing s))"
    by (simp add: run_status[OF assms])
  have 7: "currentStep (run (51 * ?N) (startProcessing s)) = preview"
    "\<not> isProcessing (run (51 * ?N) (startProcessing s))"
    "timers (run (51 * ?N + k) (startProcessing s)) = []"
    by (simp_all add: run_status[OF assms] run_timers[OF assms] timers_at_def)
  from 1 2 3 4 5 6 7 show ?thesis by blast
qed

theorem run_trace_witness:
  "idle initial_app \<and>
   length (filter is_tick (events 204 (startProcessing initial_app))) = 200 \<and>
   length (filter is_pause_end (events 204 (startProcessing initial_app))) = 4 \<and>
   filter (\<lambda>e. e = RunCompleted) (events 204 (startProcessing initial_app)) = [RunCompleted] \<and>
   map delay (timers (run 203 (startProcessing initial_app))) = [500] \<and>
   currentStep (run 203 (startProcessing initial_app)) = processing \<and>
   currentStep (run 204 (startProcessing initial_app)) = preview \<and>
   timers (run 204 (startProcessing initial_app)) = []"
proof -
  have len: "length (processingSteps initial_app) = 4" by (simp add: initial_app_def)
  note t = run_trace[OF idle_initial_app, of 0, unfolded len]
  have a: "map delay (timers (run 203 (startProcessing initial_app))) = [500]"
    using t[THEN conjunct2, THEN conjunct2, THEN conjunct2, THEN conjunct2, THEN conjunct1,
        rule_format, of 3] by simp
  have b: "currentStep (run 203 (startProcessing initial_app)) = processing"
    using t[THEN conjunct2, THEN conjunct2, THEN conjunct2, THEN conjunct2, THEN conjunct2,
        THEN conjunct1, rule_format, of 203] by simp
  note t' = t[simplified]
  from t' a b idle_initial_app show ?thesis by blast
qed

text \<open>
  Claim C2 as stated fails for the default pipeline: after 200 ticks and 3 pauses the run has
  not completed. The overall progress is 100, but the wizard is still at \<open>processing\<close> with
  the 500 ms timeout after the last stage pending, and completion comes with callback 204,
  the end of that fourth pause.
\<close>

theorem run_pauses_after_last_stage:
  "length (filter is_tick (events 203 (startProcessing initial_app))) = 200 \<and>
   length (filter is_pause_end (events 203 (startProcessing initial_app))) = 3 \<and>
   overallProgress (run 203 (startProcessing initial_app)) = 100 \<and>
   currentStep (run 203 (startProcessing initial_app)) = processing \<and>
   isProcessing (run 203 (startProcessing initial_app)) \<and>
   timers (run 203 (startProcessing initial_app)) = [StepTimeout [0, 1, 2, 3] 4] \<and>
   map delay (timers (run 203 (startProcessing initial_app))) = [500] \<and>
   currentStep (run 204 (startProcessing initial_app)) = preview"
proof -
  have len: "length (processingSteps initial_app) = 4" by (simp add: initial_app_def)
  have refs: "processingSteps initial_app = [0, 1, 2, 3]" by (simp add: initial_app_def)
  have t: "timers (run 203 (startProcessing initial_app)) = [StepTimeout [0, 1, 2, 3] 4]"
    using timers_at_pause[of 3 "[0, 1, 2, 3]"]
    by (simp add: run_timers[OF idle_initial_app] refs)
  have "events (203 + 1) (startProcessing initial_app) =
        events 203 (startProcessing initial_app) @ [RunCompleted]"
    unfolding events_add by (simp add: t)
  moreover have "events (203 + 1) (startProcessing initial_app) =
        concat (map (stage_events 4) [0..<4])"
    using events_complete[OF idle_initial_app, of 0] by (simp add: len)
  ultimately have e: "events 203 (startProcessing initial_app) @ [RunCompleted] =
        concat (map (stage_events 4) [0..<4])" by simp
  have "length (filter is_tick (events 203 (startProcessing initial_app) @ [RunCompleted])) = 200"
    unfolding e using trace_ticks[of 4] by simp
  then have 1: "length (filter is_tick (events 203 (startProcessing initial_app))) = 200"
    by simp
  have "length (filter is_pause_end (events 203 (startProcessing initial_app) @ [RunCompleted]))
          = 4"
    unfolding e using trace_pauses[of 4] by simp
  then have 2: "length (filter is_pause_end (events 203 (startProcessing initial_app))) = 3"
    by simp
  have 3: "currentStep (run 203 (startProcessing initial_app)) = processing"
    "isProcessing (run 203 (startProcessing initial_app))"
    "currentStep (run 204 (startProcessing initial_app)) = preview"
    by (simp_all add: run_status[OF idle_initial_app] len)
  have 4: "overallProgress (run 203 (startProcessing initial_app)) = 100"
    using default_boundaries by simp
  from 1 2 3 4 t show ?thesis by simp
qed

text \<open>
  Claim C3, as the code has it: \<open>startProcessing\<close> checks nothing. With no stages it signals
  completion at once (overall progress 100, wizard at \<open>preview\<close>) and registers no timer; with
  stages it registers the interval of stage 0 next to whatever timers are pending, also those
  of a run in progress.
\<close>

theorem startProcessing_unguarded:
  "(processingSteps s = [] \<longrightarrow>
      startProcessing s = s\<lparr>currentStep := preview, isProcessing := False,
                            overallProgress := 100\<rparr>) \<and>
   (processingSteps s \<noteq> [] \<longrightarrow>
      startProcessing s = s\<lparr>currentStep := processing, isProcessing := True,
                            timers := timers s @
                              [StepInterval (processingSteps s) 0 (processingSteps s ! 0) 0]\<rparr>)"
  by (simp add: startProcessing_def processStep_def)

theorem startProcessing_unguarded_witness:
  "startProcessing (initial_app\<lparr>processingSteps := []\<rparr>)
     = initial_app\<lparr>processingSteps := [], currentStep := preview, isProcessing := False,
                   overallProgress := 100\<rparr> \<and>
   timers (startProcessing (run 1 (startProcessing initial_app)))
     = [StepInterval [0, 1, 2, 3] 0 0 2, StepInterval [0, 1, 2, 3] 0 0 0]"
  using startProcessing_unguarded[of "initial_app\<lparr>processingSteps := []\<rparr>"]
    startProcessing_unguarded[of "run 1 (startProcessing initial_app)"]
  unfolding first_tick
  by (simp add: initial_app_def)

text \<open>
  Claim C3 as stated fails: with an empty stage list \<open>startProcessing\<close> goes to \<open>preview\<close> at
  100 percent, and called again after the first tick of a run it leaves two intervals
  pending.
\<close>

theorem startProcessing_overlaps:
  "currentStep (startProcessing (initial_app\<lparr>processingSteps := []\<rparr>)) = preview \<and>
   overallProgress (startProcessing (initial_app\<lparr>processingSteps := []\<rparr>)) = 100 \<and>
   timers (startProcessing (initial_app\<lparr>processingSteps := []\<rparr>)) = [] \<and>
   timers (startProcessing (run 1 (startProcessing initial_app)))
     = [StepInterval [0, 1, 2, 3] 0 0 2, StepInterval [0, 1, 2, 3] 0 0 0]"
  unfolding first_tick
  by (simp add: startProcessing_def processStep_def initial_app_def)

text \<open>
  Claim C4: in a run from an idle state over \<open>N\<close> stages, \<open>N\<close> a power of two (where the
  arithmetic of the source is exact), the 50th tick of stage \<open>i\<close> is the one that takes it from
  below 100 to 100; the state after it has the stage completed and the overall progress at
  \<open>100 * (i + 1) / N\<close>. For the default pipeline these values are 25, 50, 75 and 100.
\<close>

theorem stage_boundary:
  assumes "idle s" and "length (processingSteps s) = 2 ^ k" and "k \<le> 31"
    and "i < length (processingSteps s)"
  shows "progress (snapshot (run (51 * i + 49) (startProcessing s)) ! i) < 100 \<and>
         events (51 * i + 50) (startProcessing s) ! (51 * i + 49) = StageCompleted i \<and>
         progress (snapshot (run (51 * i + 50) (startProcessing s)) ! i) = 100 \<and>
         completed (snapshot (run (51 * i + 50) (startProcessing s)) ! i) \<and>
         overallProgress (run (51 * i + 50) (startProcessing s))
           = 100 * of_nat (i + 1) / of_nat (length (processingSteps s)) \<and>
         map (\<lambda>i. overallProgress (run (51 * i + 50) (startProcessing initial_app)))
           [0, 1, 2, 3] = [25, 50, 75, 100]"
  using boundary_state[OF assms(1,4)] default_boundaries by blast

theorem stage_boundary_witness:
  "idle initial_app \<and>
   length (processingSteps initial_app) = 2 ^ 2 \<and>
   events 152 (startProcessing initial_app) ! 151 = StageCompleted 2 \<and>
   progress (snapshot (run 152 (startProcessing initial_app)) ! 2) = 100 \<and>
   completed (snapshot (run 152 (startProcessing initial_app)) ! 2) \<and>
   overallProgress (run 152 (startProcessing initial_app)) = 75"
proof -
  have len: "length (processingSteps initial_app) = 4" by (simp add: initial_app_def)
  have p: "length (processingSteps initial_app) = 2 ^ 2" by (simp add: len)
  have k: "(2::nat) \<le> 31" by simp
  have i: "2 < length (processingSteps initial_app)" by (simp add: len)
  show ?thesis
    using stage_boundary[OF idle_initial_app p k i] idle_initial_app
    by (simp add: len)
qed

text \<open>
  Claim C5: along a run from an idle state the overall progress never decreases, from the
  state before \<open>startProcessing\<close> on; a state whose overall progress is 100 has every stage
  completed; and the run does reach 100.
\<close>

theorem overallProgress_monotone:
  assumes "idle s"
  shows "overallProgress s \<le> overallProgress (startProcessing s) \<and>
         (\<forall>p q. p \<le> q \<longrightarrow>
            overallProgress (run p (startProcessing s))
              \<le> overallProgress (run q (startProcessing s))) \<and>
         (\<forall>p. overallProgress (run p (startProcessing s)) = 100 \<longrightarrow>
            list_all completed (snapshot (run p (startProcessing s)))) \<and>
         overallProgress (run (51 * length (processingSteps s)) (startProcessing s)) = 100"
proof (intro conjI allI impI)
  have "overallProgress s = 0" using assms by (simp add: idle_def)
  moreover have "overall_at (length (processingSteps s)) 0 \<ge> 0"
    by (simp add: overall_at_def)
  ultimately show "overallProgress s \<le> overallProgress (startProcessing s)"
    using run_overall[OF assms, of 0] by simp
next
  fix p q :: nat
  assume "p \<le> q"
  then show "overallProgress (run p (startProcessing s))
               \<le> overallProgress (run q (startProcessing s))"
    by (simp add: run_overall[OF assms] overall_at_mono)
next
  fix p
  assume "overallProgress (run p (startProcessing s)) = 100"
  then have "51 * length (processingSteps s) \<le> Suc p"
    using overall_at_100 by (simp add: run_overall[OF assms])
  then have "\<forall>m < length (processingSteps s). 51 * m + 50 \<le> p" by auto
  then show "list_all completed (snapshot (run p (startProcessing s)))"
    by (simp add: list_all_length run_snapshot_length[OF assms] run_snapshot[OF assms])
next
  show "overallProgress (run (51 * length (processingSteps s)) (startProcessing s)) = 100"
    by (simp add: run_overall[OF assms] overall_at_def)
qed

theorem overallProgress_monotone_witness:
  "idle initial_app \<and>
   overallProgress (run 10 (startProcessing initial_app))
     \<le> overallProgress (run 60 (startProcessing initial_app)) \<and>
   overallProgress (run 204 (startProcessing initial_app)) = 100 \<and>
   list_all completed (snapshot (run 204 (startProcessing initial_app)))"
proof -
  have len: "51 * length (processingSteps initial_app) = 204" by (simp add: initial_app_def)
  show ?thesis
    using overallProgress_monotone[OF idle_initial_app] idle_initial_app
    unfolding len by simp
qed

text \<open>
  Claim C6: in every state of a run from an idle state, a stage is completed exactly when its
  progress is 100, and a stage that is completed in one state is completed in every later
  state of the run.
\<close>

theorem completed_iff_full_progress:
  assumes "idle s"
  shows "(\<forall>p. list_all (\<lambda>st. completed st \<longleftrightarrow> progress st = 100)
               (snapshot (run p (startProcessing s)))) \<and>
         (\<forall>p q m. p \<le> q \<and> m < length (processingSteps s) \<and>
                  completed (snapshot (run p (startProcessing s)) ! m) \<longrightarrow>
                  completed (snapshot (run q (startProcessing s)) ! m))"
  by (auto simp: list_all_length run_snapshot_length[OF assms] run_snapshot[OF assms]
      stage_progress_100)

theorem completed_iff_full_progress_witness:
  "idle initial_app \<and>
   list_all (\<lambda>st. completed st \<longleftrightarrow> progress st = 100)
     (snapshot (run 75 (startProcessing initial_app))) \<and>
   completed (snapshot (run 50 (startProcessing initial_app)) ! 0) \<and>
   completed (snapshot (run 75 (startProcessing initial_app)) ! 0)"
proof -
  have c: "completed (snapshot (run 50 (startProcessing initial_app)) ! 0)"
    using run_snapshot(2)[OF idle_initial_app, of 0 50] by (simp add: initial_app_def)
  have l: "(0::nat) < length (processingSteps initial_app)" by (simp add: initial_app_def)
  note mono = completed_iff_full_progress[OF idle_initial_app]
  from mono[THEN conjunct2, rule_format, of 50 75 0] c l
  have "completed (snapshot (run 75 (startProcessing initial_app)) ! 0)" by simp
  with mono[THEN conjunct1] c idle_initial_app show ?thesis by simp
qed

section \<open>Playback and download: the claims\<close>

lemma split_first: "\<exists>ps. split c xs = takeWhile (\<lambda>x. x \<noteq> c) xs # ps"
  by (induction xs) auto

text \<open>
  Claim C7: after \<open>togglePlayback\<close> with both views mounted, each view plays exactly when
  the shared flag \<open>isPlaying\<close> says so, and the flag has flipped: both views get the same
  command in the one transition. In every state, toggling twice gives \<open>isPlaying\<close> its first
  value back.
\<close>

theorem togglePlayback_sync:
  "(leftVideoRef s \<noteq> None \<and> rightVideoRef s \<noteq> None \<longrightarrow>
      view_playing (leftVideoRef (togglePlayback s)) = Some (isPlaying (togglePlayback s)) \<and>
      view_playing (rightVideoRef (togglePlayback s)) = Some (isPlaying (togglePlayback s)) \<and>
      isPlaying (togglePlayback s) = (\<not> isPlaying s)) \<and>
   isPlaying (togglePlayback (togglePlayback s)) = isPlaying s"
  by (auto simp: togglePlayback_def view_playing_def play_def pause_def split: option.splits)

theorem togglePlayback_sync_witness:
  "view_playing (leftVideoRef (togglePlayback previewing)) = Some True \<and>
   view_playing (rightVideoRef (togglePlayback previewing)) = Some True \<and>
   isPlaying (togglePlayback previewing) \<and>
   \<not> isPlaying (togglePlayback (togglePlayback previewing))"
  using togglePlayback_sync [of previewing]
  by (simp add: previewing_def initial_app_def)

text \<open>
  Claim C8: while either view is not mounted, \<open>togglePlayback\<close> changes nothing: no view is
  commanded, \<open>isPlaying\<close> keeps its value, and there is no error to return.
\<close>

theorem togglePlayback_unattached:
  assumes "leftVideoRef s = None \<or> rightVideoRef s = None"
  shows "togglePlayback s = s"
  using assms by (auto simp: togglePlayback_def split: option.splits)

theorem togglePlayback_unattached_witness:
  "(leftVideoRef (initial_app\<lparr>leftVideoRef := Some \<lparr>src = ''blob:1'', paused = True\<rparr>\<rparr>) = None
     \<or> rightVideoRef (initial_app\<lparr>leftVideoRef := Some \<lparr>src = ''blob:1'', paused = True\<rparr>\<rparr>) = None)
   \<and> togglePlayback (initial_app\<lparr>leftVideoRef := Some \<lparr>src = ''blob:1'', paused = True\<rparr>\<rparr>)
       = initial_app\<lparr>leftVideoRef := Some \<lparr>src = ''blob:1'', paused = True\<rparr>\<rparr>"
  using togglePlayback_unattached
    [of "initial_app\<lparr>leftVideoRef := Some \<lparr>src = ''blob:1'', paused = True\<rparr>\<rparr>"]
  by (simp add: initial_app_def)

text \<open>
  Claim C9: the \<open>ended\<close> event of either view sets the shared flag \<open>isPlaying\<close> to false.
\<close>

theorem onEnded_stops: "isPlaying (onEnded v s) = False"
  by (cases v) (simp_all add: handleVideoEnd_def)

text \<open>
  Claim C10: the name \<open>downloadVideo\<close> gives the download is the uploaded video's name up to
  its first dot (the whole name when it has none), followed by \<open>_VR180.mp4\<close>.
\<close>

theorem downloadVideo_name:
  assumes "uploadedVideo s = Some v"
  shows "download_attr (fst (downloadVideo s)) =
           takeWhile (\<lambda>c. c \<noteq> CHR ''.'') (VideoFile.name v) @ ''_VR180.mp4''"
proof -
  obtain ps where "split (CHR ''.'') (VideoFile.name v) =
      takeWhile (\<lambda>c. c \<noteq> CHR ''.'') (VideoFile.name v) # ps"
    using split_first by blast
  then show ?thesis using assms by (simp add: downloadVideo_def)
qed

theorem downloadVideo_name_witness:
  "download_attr (fst (downloadVideo previewing)) = ''my_VR180.mp4''"
  using downloadVideo_name
    [of previewing "\<lparr>url = ''blob:1'', name = ''my.clip.mov'', size = ''1 MB''\<rparr>"]
  by (simp add: previewing_def)

end
